theory Spec2Isabelle
  imports Main
begin

section \<open>JSON documents as the on-demand parser exposes them\<close>

text \<open>
  \<^verbatim>\<open>SIMDJsonExtractor.h\<close> never looks at the bytes of a document: every access goes
  through \<^verbatim>\<open>simdjson::ondemand\<close>, which decodes lazily and hands out
  \<^verbatim>\<open>simdjson_result\<close> values whose unwrapping (\<^verbatim>\<open>.value()\<close>, or the implicit
  conversion in \<^verbatim>\<open>input.type() == ...\<close>) raises \<^verbatim>\<open>simdjson_error\<close>.
  A document is therefore the tree the parser walks; \<open>JError\<close> marks a position at
  which the parser reports an error once the traversal gets there. The traversal never
  inspects the payload of a scalar.
\<close>

datatype json =
    JNull
  | JBool bool
  | JNumber int
  | JString string
  | JArray "json list"
  | JObject "(string \<times> json) list"
  | JError

text \<open>\<^verbatim>\<open>simdjson::ondemand::json_type\<close>; \<open>type_of\<close> is \<^verbatim>\<open>value::type()\<close>, with
  \<open>None\<close> for the error the conversion raises.\<close>

datatype json_type = T_array | T_object | T_number | T_string | T_boolean | T_null

fun type_of :: "json \<Rightarrow> json_type option" where
  "type_of JNull = Some T_null"
| "type_of (JBool b) = Some T_boolean"
| "type_of (JNumber n) = Some T_number"
| "type_of (JString t) = Some T_string"
| "type_of (JArray children) = Some T_array"
| "type_of (JObject members) = Some T_object"
| "type_of JError = None"

text \<open>\<^verbatim>\<open>value::get_array()\<close>: the elements in document order; an error on anything
  that is not an array.\<close>

fun get_array :: "json \<Rightarrow> json list option" where
  "get_array (JArray children) = Some children"
| "get_array other = None"

text \<open>A document is valid when no position of it is erroneous.\<close>

fun valid :: "json \<Rightarrow> bool" where
  "valid JError = False"
| "valid (JArray children) = list_all valid children"
| "valid (JObject members) = list_all valid (map snd members)"
| "valid other = True"

definition is_scalar :: "json \<Rightarrow> bool" where
  "is_scalar j = (case j of JArray children \<Rightarrow> False | JObject members \<Rightarrow> False
                  | JError \<Rightarrow> False | _ \<Rightarrow> True)"

section \<open>The consumer\<close>

text \<open>
  \<^verbatim>\<open>TConsumer\<close> is called with the whole \<^verbatim>\<open>document\<close> (trivial path) or with a
  \<^verbatim>\<open>value\<close>. Its side effects are a state \<open>'s\<close> that every call transforms;
  \<open>record_call\<close> is the consumer that logs its arguments in call order. A run
  either returns or raises \<^verbatim>\<open>simdjson_error\<close>; in both cases the consumer calls made
  so far have happened. The functions that follow take a consumer that returns; the
  section on a consumer that raises gives them for a consumer with an outcome.
\<close>

datatype consumed = Document json | Value json

datatype 's outcome = Returned 's | Raised 's


definition record_call :: "consumed \<Rightarrow> consumed list \<Rightarrow> consumed list" where
  "record_call v calls = calls @ [v]"

section \<open>extractObject and extractArray\<close>

text \<open>Modelled from the spec: \<^verbatim>\<open>extractObject\<close> is declared in the header (lines 82-85)
  and defined elsewhere. The spec (4.3, Object): look the key up in the object; if absent
  the result stays empty, if present it is the matched child. The key is the token's text
  as it stands. With a repeated key the first member is taken.\<close>

fun extractObject :: "json \<Rightarrow> string \<Rightarrow> json option" where
  "extractObject (JObject members) key = map_of members key"
| "extractObject other key = None"

text \<open>Modelled from the spec: \<^verbatim>\<open>extractArray\<close> is declared in the header (lines 87-90)
  and defined elsewhere. The spec (4.3, Array, Index(n)): select the n-th element, 0-based;
  out of range leaves the result empty. A token that is not a non-negative integer literal
  selects nothing (spec 4.3 item 4: a segment that matches no data is not a failure).\<close>

definition is_digit :: "char \<Rightarrow> bool" where
  "is_digit c = (c \<in> set ''0123456789'')"

definition is_index :: "string \<Rightarrow> bool" where
  "is_index k = (k \<noteq> [] \<and> list_all is_digit k)"

definition index_of :: "string \<Rightarrow> nat" where
  "index_of k = foldl (\<lambda>n c. 10 * n + (of_char c - 48)) 0 k"

fun extractArray :: "json \<Rightarrow> string \<Rightarrow> json option" where
  "extractArray (JArray children) index =
     (if is_index index \<and> index_of index < length children
      then Some (children ! index_of index) else None)"
| "extractArray other index = None"

section \<open>SIMDJsonExtractor::extract\<close>

text \<open>The range-for over the elements of an array (lines 108-118): the body runs on each
  element in order, and an error raised by one run ends the loop.\<close>

fun for_each :: "('a \<Rightarrow> 's \<Rightarrow> 's outcome) \<Rightarrow> 'a list \<Rightarrow> 's \<Rightarrow> 's outcome" where
  "for_each body [] s = Returned s"
| "for_each body (x # xs) s =
     (case body x s of Returned s' \<Rightarrow> for_each body xs s' | Raised s' \<Rightarrow> Raised s')"


text \<open>
  Lines 93-134. The \<^verbatim>\<open>for\<close> over \<^verbatim>\<open>tokenIndex\<close> is the recursion on
  \<open>tokenIndex\<close> with \<open>input\<close> replaced by the result; the call of line 116 is the
  recursion inside \<open>for_each\<close>. \<^verbatim>\<open>tokens_\<close> is a \<^verbatim>\<open>std::vector<std::string>\<close>:
  a token is its text, with no tag. Token counts are far below \<open>2^31\<close>, so the
  \<^verbatim>\<open>int\<close> index is a natural number.
\<close>

function extractor_extract ::
  "string list \<Rightarrow> (consumed \<Rightarrow> 's \<Rightarrow> 's) \<Rightarrow> json \<Rightarrow> nat \<Rightarrow> 's \<Rightarrow> 's outcome" where
  "extractor_extract tokens consumer input tokenIndex s =
    (if tokenIndex < length tokens then
       (let token = tokens ! tokenIndex in
        case type_of input of
          None \<Rightarrow> Raised s
        | Some ty \<Rightarrow>
            if ty = T_object then
              (case extractObject input token of
                 None \<Rightarrow> Returned s
               | Some result \<Rightarrow> extractor_extract tokens consumer result (tokenIndex + 1) s)
            else if ty = T_array then
              (if token = ''*'' then
                 (case get_array input of
                    None \<Rightarrow> Raised s
                  | Some children \<Rightarrow>
                      for_each
                        (\<lambda>child s'.
                           if child = JError then Raised s'
                           else if tokenIndex = length tokens - 1
                           then Returned (consumer (Value child) s')
                           else extractor_extract tokens consumer child (tokenIndex + 1) s')
                        children s)
               else
                 (case extractArray input token of
                    None \<Rightarrow> Returned s
                  | Some result \<Rightarrow> extractor_extract tokens consumer result (tokenIndex + 1) s))
            else Returned s)
     else Returned (consumer (Value input) s))"
  by pat_completeness auto
termination
  by (relation "measure (\<lambda>(tokens, consumer, input, tokenIndex, s). length tokens - tokenIndex)")
     auto

declare extractor_extract.simps [simp del]

text \<open>
  The same function with the call stack made explicit: \<open>frames\<close> is the number of
  activations of \<^verbatim>\<open>extract\<close> that may still be opened. The call itself takes one, the
  iterations of the \<^verbatim>\<open>for\<close> over the tokens stay in it, and the call of line 116
  runs with one frame less. \<open>None\<close> is a stack that was too small.
\<close>

fun for_each_framed ::
  "('a \<Rightarrow> 's \<Rightarrow> 's outcome option) \<Rightarrow> 'a list \<Rightarrow> 's \<Rightarrow> 's outcome option" where
  "for_each_framed body [] s = Some (Returned s)"
| "for_each_framed body (x # xs) s =
     (case body x s of
        None \<Rightarrow> None
      | Some (Returned s') \<Rightarrow> for_each_framed body xs s'
      | Some (Raised s') \<Rightarrow> Some (Raised s'))"

lemma for_each_framed_cong [fundef_cong]:
  "xs = ys \<Longrightarrow> s = t \<Longrightarrow> (\<And>x u. x \<in> set ys \<Longrightarrow> body x u = body' x u)
   \<Longrightarrow> for_each_framed body xs s = for_each_framed body' ys t"
proof (induction ys arbitrary: xs s t)
  case Nil
  then show ?case by simp
next
  case (Cons y ys)
  then show ?case by (auto split: outcome.splits option.splits)
qed

function extract_framed ::
  "nat \<Rightarrow> string list \<Rightarrow> (consumed \<Rightarrow> 's \<Rightarrow> 's) \<Rightarrow> json \<Rightarrow> nat \<Rightarrow> 's
   \<Rightarrow> 's outcome option" where
  "extract_framed frames tokens consumer input tokenIndex s =
    (if frames = 0 then None
     else if tokenIndex < length tokens then
       (let token = tokens ! tokenIndex in
        case type_of input of
          None \<Rightarrow> Some (Raised s)
        | Some ty \<Rightarrow>
            if ty = T_object then
              (case extractObject input token of
                 None \<Rightarrow> Some (Returned s)
               | Some result \<Rightarrow> extract_framed frames tokens consumer result (tokenIndex + 1) s)
            else if ty = T_array then
              (if token = ''*'' then
                 (case get_array input of
                    None \<Rightarrow> Some (Raised s)
                  | Some children \<Rightarrow>
                      for_each_framed
                        (\<lambda>child s'.
                           if child = JError then Some (Raised s')
                           else if tokenIndex = length tokens - 1
                           then Some (Returned (consumer (Value child) s'))
                           else extract_framed (frames - 1) tokens consumer child
                                  (tokenIndex + 1) s')
                        children s)
               else
                 (case extractArray input token of
                    None \<Rightarrow> Some (Returned s)
                  | Some result \<Rightarrow> extract_framed frames tokens consumer result (tokenIndex + 1) s))
            else Some (Returned s))
     else Some (Returned (consumer (Value input) s)))"
  by pat_completeness auto
termination
  by (relation "measure (\<lambda>(frames, tokens, consumer, input, tokenIndex, s).
                  length tokens - tokenIndex)")
     auto

declare extract_framed.simps [simp del]

section \<open>Path compilation\<close>

text \<open>Modelled from the spec: \<^verbatim>\<open>SIMDJsonExtractor::tokenize\<close> (declared at line 68) and
  the \<^verbatim>\<open>JsonPathTokenizer\<close> it drives are defined elsewhere. The spec (4.1): the path
  begins with \<open>$\<close>; each following segment is \<open>.name\<close>, where \<open>name\<close> is a run of
  characters other than the separator and the brackets, or \<open>[k]\<close>, where \<open>k\<close> is a
  non-negative integer literal or \<open>*\<close>. An empty name (so also two separators in a
  row), a bracket that is not closed and any other bracket content are malformed. The
  path \<open>$\<close> alone has no token. A token is stored as its text.\<close>

definition is_name_char :: "char \<Rightarrow> bool" where
  "is_name_char c = (c \<noteq> CHR ''.'' \<and> c \<noteq> CHR ''['' \<and> c \<noteq> CHR '']'')"

definition not_closing :: "char \<Rightarrow> bool" where
  "not_closing c = (c \<noteq> CHR '']'')"

function segments :: "string \<Rightarrow> string list option" where
  "segments [] = Some []"
| "segments (c # cs) =
    (if c = CHR ''.'' then
       (if takeWhile is_name_char cs = [] then None
        else (case segments (dropWhile is_name_char cs) of
                None \<Rightarrow> None
              | Some ts \<Rightarrow> Some (takeWhile is_name_char cs # ts)))
     else if c = CHR ''['' then
       (case dropWhile not_closing cs of
          [] \<Rightarrow> None
        | closing # rest \<Rightarrow>
            if takeWhile not_closing cs = ''*'' \<or> is_index (takeWhile not_closing cs)
            then (case segments rest of
                    None \<Rightarrow> None
                  | Some ts \<Rightarrow> Some (takeWhile not_closing cs # ts))
            else None)
     else None)"
  by pat_completeness auto
termination
proof (relation "measure length")
  show "wf (measure length)" by simp
next
  fix c :: char and cs :: string
  have "length (dropWhile is_name_char cs) \<le> length cs"
    by (rule length_dropWhile_le)
  then show "(dropWhile is_name_char cs, c # cs) \<in> measure length" by simp
next
  fix c :: char and cs :: string and closing :: char and rest :: string
  assume "dropWhile not_closing cs = closing # rest"
  moreover have "length (dropWhile not_closing cs) \<le> length cs"
    by (rule length_dropWhile_le)
  ultimately show "(rest, c # cs) \<in> measure length" by simp
qed

definition tokenize :: "string \<Rightarrow> string list option" where
  "tokenize path =
     (case path of [] \<Rightarrow> None | c # cs \<Rightarrow> if c = CHR ''$'' then segments cs else None)"

text \<open>The class (lines 40-80) holds \<^verbatim>\<open>tokens_\<close> only (the field
  \<open>path_tokens\<close>). The constructor (lines 62-66) raises \<^verbatim>\<open>VeloxUserError\<close> through
  \<^verbatim>\<open>VELOX_USER_FAIL\<close>, with the path in the message, when \<^verbatim>\<open>tokenize\<close> returns
  false.\<close>

record SIMDJsonExtractor =
  path_tokens :: "string list"

datatype velox_exception = VeloxUserError string

definition new_SIMDJsonExtractor :: "string \<Rightarrow> velox_exception + SIMDJsonExtractor" where
  "new_SIMDJsonExtractor path =
     (case tokenize path of
        None \<Rightarrow> Inl (VeloxUserError (''Invalid JSON path: '' @ path))
      | Some ts \<Rightarrow> Inr \<lparr>path_tokens = ts\<rparr>)"

definition isRootOnlyPath :: "SIMDJsonExtractor \<Rightarrow> bool" where
  "isRootOnlyPath extractor = (path_tokens extractor = [])"

section \<open>The cache of compiled paths\<close>

text \<open>Line 71.\<close>

definition kMaxCacheSize :: nat where
  "kMaxCacheSize = 32"

text \<open>
  A reference to an extractor is the extractor with its address: two references are the
  same object when the addresses agree. The cache lists its entries from the most to the
  least recently used, and counts the extractors constructed so far; the count is the
  address of the next one.
\<close>

type_synonym extractor_ref = "nat \<times> SIMDJsonExtractor"

record extractor_cache =
  entries :: "(string \<times> extractor_ref) list"
  allocated :: nat

definition empty_cache :: extractor_cache where
  "empty_cache = \<lparr>entries = [], allocated = 0\<rparr>"

text \<open>Modelled from the spec: \<^verbatim>\<open>SIMDJsonExtractor::getInstance\<close> is declared at line 59
  and defined elsewhere. The spec (4.2): a mapping from the path string to its compiled
  form; a hit returns the shared compiled form; a miss compiles, and a path that fails
  to compile raises to the caller and leaves the cache as it was; at most
  \<^verbatim>\<open>kMaxCacheSize\<close> paths are cached, and on overflow the least recently used entry
  is evicted to admit the new one. An evicted extractor stays valid for its holders.\<close>

definition getInstance ::
  "string \<Rightarrow> extractor_cache \<Rightarrow> velox_exception + (extractor_ref \<times> extractor_cache)" where
  "getInstance path cache =
     (case map_of (entries cache) path of
        Some ref \<Rightarrow>
          Inr (ref, cache\<lparr>entries := (path, ref) # filter (\<lambda>e. fst e \<noteq> path) (entries cache)\<rparr>)
      | None \<Rightarrow>
          (case new_SIMDJsonExtractor path of
             Inl err \<Rightarrow> Inl err
           | Inr extractor \<Rightarrow>
               Inr ((allocated cache, extractor),
                    \<lparr>entries = (path, (allocated cache, extractor)) #
                       (if length (entries cache) < kMaxCacheSize then entries cache
                        else butlast (entries cache)),
                     allocated = allocated cache + 1\<rparr>)))"

section \<open>simdJsonExtract\<close>

text \<open>
  The buffer of bytes is only handed to the parser. The model takes in its place what
  \<^verbatim>\<open>parser.iterate\<close> makes of it: the bytes are refused at once, or they are a
  document to walk (whose positions may still be erroneous, see \<open>JError\<close>).
\<close>

datatype json_text = Refused | Iterated json

text \<open>Modelled from the spec: \<^verbatim>\<open>SIMDJsonExtractor::parse\<close> is declared at line 53 and
  defined elsewhere. The spec (2, 6): it parses the document via the external parser into
  a root node; a document that fails to parse is a failure (\<open>None\<close>: the
  \<^verbatim>\<open>simdjson_error\<close> raised).\<close>

fun parse :: "json_text \<Rightarrow> json option" where
  "parse Refused = None"
| "parse (Iterated root) = Some root"

text \<open>\<^verbatim>\<open>document::get_value()\<close>, unwrapped by \<^verbatim>\<open>.value()\<close> at line 176. Lines
  171-173 record that the conversion is not supported when the document is a scalar: it
  yields the root of an array or object document and raises otherwise.\<close>

fun get_value :: "json \<Rightarrow> json option" where
  "get_value (JArray children) = Some (JArray children)"
| "get_value (JObject members) = Some (JObject members)"
| "get_value other = None"

text \<open>
  Lines 156-185. \<^verbatim>\<open>VeloxUserError\<close> from \<^verbatim>\<open>getInstance\<close> is not caught (\<open>Inl\<close>);
  \<^verbatim>\<open>simdjson_error\<close> is caught and gives \<^verbatim>\<open>false\<close>. The result is the boolean, the
  consumer's state and the cache after the call, for a consumer that returns. The
  overload on \<^verbatim>\<open>std::string\<close> (lines 187-196) passes its arguments on unchanged.
\<close>

definition simdJsonExtract ::
  "json_text \<Rightarrow> string \<Rightarrow> (consumed \<Rightarrow> 's \<Rightarrow> 's) \<Rightarrow> extractor_cache \<Rightarrow> 's
   \<Rightarrow> velox_exception + (bool \<times> 's \<times> extractor_cache)" where
  "simdJsonExtract json path consumer cache s =
     (case getInstance path cache of
        Inl err \<Rightarrow> Inl err
      | Inr (extractor, cache') \<Rightarrow>
          (case parse json of
             None \<Rightarrow> Inr (False, s, cache')
           | Some jsonDoc \<Rightarrow>
               if isRootOnlyPath (snd extractor)
               then Inr (True, consumer (Document jsonDoc) s, cache')
               else
                 (case get_value jsonDoc of
                    None \<Rightarrow> Inr (False, s, cache')
                  | Some root \<Rightarrow>
                      (case extractor_extract (path_tokens (snd extractor)) consumer root 0 s of
                         Returned s' \<Rightarrow> Inr (True, s', cache')
                       | Raised s' \<Rightarrow> Inr (False, s', cache')))))"

section \<open>A consumer that raises\<close>

text \<open>
  The calls of the consumer (lines 112, 133 and 174) run inside the \<^verbatim>\<open>try\<close> of lines
  161-182, so a consumer that raises \<^verbatim>\<open>simdjson_error\<close> ends the traversal and the call
  returns \<^verbatim>\<open>false\<close>. Here the consumer yields an outcome: \<open>Returned\<close> with its new
  state, or \<open>Raised\<close> with the state it raised in. The two functions below are lines
  93-134 and 156-185 again, for such a consumer; on a consumer that always returns they
  are \<open>extractor_extract\<close> and \<open>simdJsonExtract\<close>. An exception of another type would
  leave \<^verbatim>\<open>simdJsonExtract\<close> uncaught, as \<^verbatim>\<open>VeloxUserError\<close> does, with no boolean;
  it is not modelled.
\<close>

function extract_raising ::
  "string list \<Rightarrow> (consumed \<Rightarrow> 's \<Rightarrow> 's outcome) \<Rightarrow> json \<Rightarrow> nat \<Rightarrow> 's \<Rightarrow> 's outcome" where
  "extract_raising tokens consumer input tokenIndex s =
    (if tokenIndex < length tokens then
       (let token = tokens ! tokenIndex in
        case type_of input of
          None \<Rightarrow> Raised s
        | Some ty \<Rightarrow>
            if ty = T_object then
              (case extractObject input token of
                 None \<Rightarrow> Returned s
               | Some result \<Rightarrow> extract_raising tokens consumer result (tokenIndex + 1) s)
            else if ty = T_array then
              (if token = ''*'' then
                 (case get_array input of
                    None \<Rightarrow> Raised s
                  | Some children \<Rightarrow>
                      for_each
                        (\<lambda>child s'.
                           if child = JError then Raised s'
                           else if tokenIndex = length tokens - 1
                           then consumer (Value child) s'
                           else extract_raising tokens consumer child (tokenIndex + 1) s')
                        children s)
               else
                 (case extractArray input token of
                    None \<Rightarrow> Returned s
                  | Some result \<Rightarrow> extract_raising tokens consumer result (tokenIndex + 1) s))
            else Returned s)
     else consumer (Value input) s)"
  by pat_completeness auto
termination
  by (relation "measure (\<lambda>(tokens, consumer, input, tokenIndex, s). length tokens - tokenIndex)")
     auto

declare extract_raising.simps [simp del]




text \<open>
  The extractors of a cache are the ones the constructor builds for their keys.
\<close>

definition cache_ok :: "extractor_cache \<Rightarrow> bool" where
  "cache_ok cache =
     list_all (\<lambda>e. tokenize (fst e) = Some (path_tokens (snd (snd e)))) (entries cache)"

text \<open>The cache after a sequence of calls of \<^verbatim>\<open>getInstance\<close>; a call that raises leaves
  it as it was.\<close>

fun after_calls :: "string list \<Rightarrow> extractor_cache \<Rightarrow> extractor_cache" where
  "after_calls [] cache = cache"
| "after_calls (path # paths) cache =
     after_calls paths
       (case getInstance path cache of Inl err \<Rightarrow> cache | Inr (ref, cache') \<Rightarrow> cache')"

text \<open>The cache never lists a path twice and never more than \<^verbatim>\<open>kMaxCacheSize\<close>
  of them.\<close>

definition cache_inv :: "extractor_cache \<Rightarrow> bool" where
  "cache_inv cache =
     (distinct (map fst (entries cache)) \<and> length (entries cache) \<le> kMaxCacheSize)"

text \<open>The cache holds \<open>ref\<close> for \<open>path\<close>, and every path used more recently is one
  of \<open>others\<close>.\<close>

definition holds_ref :: "string \<Rightarrow> extractor_ref \<Rightarrow> string set \<Rightarrow> extractor_cache \<Rightarrow> bool" where
  "holds_ref path ref others cache =
     (cache_inv cache \<and>
      (\<exists>newer older. entries cache = newer @ (path, ref) # older \<and> fst ` set newer \<subseteq> others))"

text \<open>Thirty-two paths that compile, all different from \<open>$\<close>.\<close>

definition thirty_two_paths :: "string list" where
  "thirty_two_paths =
    [''$[0]'', ''$[1]'', ''$[2]'', ''$[3]'', ''$[4]'', ''$[5]'', ''$[6]'', ''$[7]'',
     ''$[8]'', ''$[9]'', ''$[10]'', ''$[11]'', ''$[12]'', ''$[13]'', ''$[14]'',
     ''$[15]'', ''$[16]'', ''$[17]'', ''$[18]'', ''$[19]'', ''$[20]'', ''$[21]'',
     ''$[22]'', ''$[23]'', ''$[24]'', ''$[25]'', ''$[26]'', ''$[27]'', ''$[28]'',
     ''$[29]'', ''$[30]'', ''$[31]'']"

section \<open>The traversal, case by case\<close>

lemma extract_exhausted:
  "length tokens \<le> tokenIndex \<Longrightarrow>
   extractor_extract tokens consumer input tokenIndex s = Returned (consumer (Value input) s)"
  by (subst extractor_extract.simps) simp


lemma extract_scalar:
  "tokenIndex < length tokens \<Longrightarrow> is_scalar input \<Longrightarrow>
   extractor_extract tokens consumer input tokenIndex s = Returned s"
  by (subst extractor_extract.simps) (cases input; simp add: is_scalar_def)

lemma extract_object:
  "tokenIndex < length tokens \<Longrightarrow>
   extractor_extract tokens consumer (JObject members) tokenIndex s =
     (case map_of members (tokens ! tokenIndex) of
        None \<Rightarrow> Returned s
      | Some child \<Rightarrow> extractor_extract tokens consumer child (tokenIndex + 1) s)"
  by (subst extractor_extract.simps) simp

lemma extract_index:
  "tokenIndex < length tokens \<Longrightarrow> tokens ! tokenIndex \<noteq> ''*'' \<Longrightarrow>
   extractor_extract tokens consumer (JArray children) tokenIndex s =
     (case extractArray (JArray children) (tokens ! tokenIndex) of
        None \<Rightarrow> Returned s
      | Some child \<Rightarrow> extractor_extract tokens consumer child (tokenIndex + 1) s)"
  by (subst extractor_extract.simps) (simp add: Let_def del: extractArray.simps)

lemma extract_wildcard:
  "tokenIndex < length tokens \<Longrightarrow> tokens ! tokenIndex = ''*'' \<Longrightarrow>
   extractor_extract tokens consumer (JArray children) tokenIndex s =
     for_each
       (\<lambda>child s'.
          if child = JError then Raised s'
          else if tokenIndex = length tokens - 1
          then Returned (consumer (Value child) s')
          else extractor_extract tokens consumer child (tokenIndex + 1) s')
       children s"
  by (subst extractor_extract.simps) simp

lemma for_each_consume:
  "JError \<notin> set xs \<Longrightarrow>
   for_each (\<lambda>child s'. if child = JError then Raised s' else Returned (f child s')) xs s
   = Returned (fold f xs s)"
  by (induction xs arbitrary: s) auto

lemma for_each_no_error:
  "JError \<notin> set xs \<Longrightarrow>
   for_each (\<lambda>child s'. if child = JError then Raised s' else g child s') xs s
   = for_each g xs s"
  by (induction xs arbitrary: s) (auto split: outcome.splits)

lemma for_each_returns:
  "(\<And>x u. x \<in> set xs \<Longrightarrow> \<exists>u'. body x u = Returned u')
   \<Longrightarrow> \<exists>s'. for_each body xs s = Returned s'"
proof (induction xs arbitrary: s)
  case Nil
  then show ?case by simp
next
  case (Cons x xs)
  from Cons.prems [of x s] obtain u' where u': "body x s = Returned u'" by auto
  have "\<exists>s'. for_each body xs u' = Returned s'"
    by (rule Cons.IH) (simp add: Cons.prems)
  with u' show ?case by simp
qed

lemma valid_not_error: "valid j \<Longrightarrow> j \<noteq> JError"
  by auto

lemma valid_returns:
  "valid input \<Longrightarrow> \<exists>s'. extractor_extract tokens consumer input tokenIndex s = Returned s'"
proof (induction "length tokens - tokenIndex" arbitrary: tokenIndex input s)
  case 0
  then show ?case by (simp add: extract_exhausted)
next
  case (Suc n)
  then have less: "tokenIndex < length tokens" and n: "n = length tokens - (tokenIndex + 1)"
    by auto
  show ?case
  proof (cases input)
    case (JArray children)
    show ?thesis
    proof (cases "tokens ! tokenIndex = ''*''")
      case True
      have "\<exists>s'. for_each
              (\<lambda>child s'.
                 if child = JError then Raised s'
                 else if tokenIndex = length tokens - 1
                 then Returned (consumer (Value child) s')
                 else extractor_extract tokens consumer child (tokenIndex + 1) s')
              children s = Returned s'"
      proof (rule for_each_returns)
        fix x u
        assume "x \<in> set children"
        with Suc.prems JArray have x: "valid x" by (simp add: list_all_iff)
        then have "x \<noteq> JError" by (rule valid_not_error)
        moreover from Suc.hyps(1) [OF n x]
        have "\<exists>u'. extractor_extract tokens consumer x (tokenIndex + 1) u = Returned u'" .
        ultimately show "\<exists>u'. (if x = JError then Raised u
                 else if tokenIndex = length tokens - 1
                 then Returned (consumer (Value x) u)
                 else extractor_extract tokens consumer x (tokenIndex + 1) u) = Returned u'"
          by simp
      qed
      with less True JArray show ?thesis by (simp add: extract_wildcard)
    next
      case False
      show ?thesis
      proof (cases "extractArray (JArray children) (tokens ! tokenIndex)")
        case None
        with less False JArray show ?thesis by (simp add: extract_index)
      next
        case (Some child)
        with Suc.prems JArray have "valid child" by (auto simp: list_all_iff split: if_splits)
        from Suc.hyps(1) [OF n this] Some less False JArray show ?thesis
          by (simp add: extract_index)
      qed
    qed
  next
    case (JObject members)
    show ?thesis
    proof (cases "map_of members (tokens ! tokenIndex)")
      case None
      with less JObject show ?thesis by (simp add: extract_object)
    next
      case (Some child)
      with Suc.prems JObject have "valid child" by (auto simp: list_all_iff dest!: map_of_SomeD)
      from Suc.hyps(1) [OF n this] Some less JObject show ?thesis
        by (simp add: extract_object)
    qed
  next
    case JError
    with Suc.prems show ?thesis by simp
  qed (use less in \<open>simp_all add: extract_scalar is_scalar_def\<close>)
qed


section \<open>The entry point on a compiled path\<close>

lemma cache_ok_empty: "cache_ok empty_cache"
  by (simp add: cache_ok_def empty_cache_def)

lemma getInstance_compiled:
  assumes ok: "cache_ok cache" and toks: "tokenize path = Some toks"
  shows "\<exists>ref cache'. getInstance path cache = Inr (ref, cache')
           \<and> path_tokens (snd ref) = toks \<and> cache_ok cache'"
proof (cases "map_of (entries cache) path")
  case None
  have "list_all (\<lambda>e. tokenize (fst e) = Some (path_tokens (snd (snd e))))
          (butlast (entries cache))"
    using ok by (auto simp: cache_ok_def list_all_iff dest: in_set_butlastD)
  with None ok toks show ?thesis
    by (simp add: getInstance_def new_SIMDJsonExtractor_def cache_ok_def)
next
  case (Some ref)
  then have "(path, ref) \<in> set (entries cache)" by (rule map_of_SomeD)
  with ok toks have "path_tokens (snd ref) = toks"
    by (auto simp: cache_ok_def list_all_iff)
  with Some ok toks show ?thesis
    by (auto simp: getInstance_def cache_ok_def list_all_iff)
qed

lemma getInstance_invalid:
  assumes ok: "cache_ok cache" and bad: "tokenize path = None"
  shows "getInstance path cache = Inl (VeloxUserError (''Invalid JSON path: '' @ path))"
proof (cases "map_of (entries cache) path")
  case None
  with bad show ?thesis by (simp add: getInstance_def new_SIMDJsonExtractor_def)
next
  case (Some ref)
  then have "(path, ref) \<in> set (entries cache)" by (rule map_of_SomeD)
  with ok bad show ?thesis by (auto simp: cache_ok_def list_all_iff)
qed

lemma simdJsonExtract_compiled:
  assumes ok: "cache_ok cache" and toks: "tokenize path = Some toks"
  shows "\<exists>cache'. cache_ok cache' \<and>
           simdJsonExtract json path consumer cache s =
             Inr (case parse json of
                    None \<Rightarrow> (False, s, cache')
                  | Some jsonDoc \<Rightarrow>
                      if toks = [] then (True, consumer (Document jsonDoc) s, cache')
                      else (case get_value jsonDoc of
                              None \<Rightarrow> (False, s, cache')
                            | Some root \<Rightarrow>
                                (case extractor_extract toks consumer root 0 s of
                                   Returned s' \<Rightarrow> (True, s', cache')
                                 | Raised s' \<Rightarrow> (False, s', cache'))))"
proof -
  from getInstance_compiled [OF ok toks] obtain ref cache'
    where "getInstance path cache = Inr (ref, cache')"
      and "path_tokens (snd ref) = toks" and "cache_ok cache'" by blast
  then show ?thesis
    by (auto simp: simdJsonExtract_def isRootOnlyPath_def
             split: option.splits outcome.splits)
qed

lemma valid_document_succeeds:
  assumes ok: "cache_ok cache" and toks: "tokenize path = Some toks"
    and v: "valid doc" and ns: "\<not> is_scalar doc"
  shows "\<exists>s' cache'. simdJsonExtract (Iterated doc) path consumer cache s = Inr (True, s', cache')"
proof -
  from v ns have root: "get_value doc = Some doc"
    by (cases doc) (simp_all add: is_scalar_def)
  from valid_returns [OF v, of toks consumer 0 s] obtain s'
    where "extractor_extract toks consumer doc 0 s = Returned s'" by blast
  with root simdJsonExtract_compiled [OF ok toks, of "Iterated doc" consumer s]
  show ?thesis by (cases "toks = []") auto
qed

lemma scalar_document_fails:
  assumes ok: "cache_ok cache" and toks: "tokenize path = Some toks"
    and ne: "toks \<noteq> []" and sc: "is_scalar doc"
  shows "\<exists>cache'. simdJsonExtract (Iterated doc) path consumer cache s = Inr (False, s, cache')"
proof -
  from sc have "get_value doc = None"
    by (cases doc) (simp_all add: is_scalar_def)
  with ne simdJsonExtract_compiled [OF ok toks, of "Iterated doc" consumer s]
  show ?thesis by auto
qed

lemma tokenize_a_star: "tokenize ''$.a[*]'' = Some [''a'', ''*'']"
  by (simp add: tokenize_def is_name_char_def not_closing_def)

lemma tokenize_missing: "tokenize ''$.missing'' = Some [''missing'']"
  by (simp add: tokenize_def is_name_char_def not_closing_def)

lemma tokenize_0: "tokenize ''$[0]'' = Some [''0'']"
  by (simp add: tokenize_def is_name_char_def not_closing_def is_index_def is_digit_def)

lemma tokenize_star: "tokenize ''$[*]'' = Some [''*'']"
  by (simp add: tokenize_def is_name_char_def not_closing_def is_index_def is_digit_def)

lemma tokenize_bad1: "tokenize ''$['' = None"
  by (simp add: tokenize_def is_name_char_def not_closing_def is_index_def is_digit_def)

lemma tokenize_bad2: "tokenize ''$.'' = None"
  by (simp add: tokenize_def is_name_char_def not_closing_def is_index_def is_digit_def)

lemma extract_wildcard_last:
  "Suc tokenIndex = length tokens \<Longrightarrow> tokens ! tokenIndex = ''*'' \<Longrightarrow>
   extractor_extract tokens consumer (JArray children) tokenIndex s =
     for_each
       (\<lambda>child s'. if child = JError then Raised s'
                   else Returned (consumer (Value child) s'))
       children s"
proof -
  assume a: "Suc tokenIndex = length tokens" "tokens ! tokenIndex = ''*''"
  then have "tokenIndex < length tokens" and "tokenIndex = length tokens - 1" by auto
  with a show ?thesis by (subst extractor_extract.simps) (simp cong: if_cong)
qed

lemma extract_wildcard_inner:
  "Suc tokenIndex < length tokens \<Longrightarrow> tokens ! tokenIndex = ''*'' \<Longrightarrow>
   extractor_extract tokens consumer (JArray children) tokenIndex s =
     for_each
       (\<lambda>child s'. if child = JError then Raised s'
                   else extractor_extract tokens consumer child (tokenIndex + 1) s')
       children s"
proof -
  assume a: "Suc tokenIndex < length tokens" "tokens ! tokenIndex = ''*''"
  then have "tokenIndex < length tokens" and "tokenIndex \<noteq> length tokens - 1" by auto
  with a show ?thesis by (subst extractor_extract.simps) (simp cong: if_cong)
qed

lemma refused_document_fails:
  assumes ok: "cache_ok cache" and toks: "tokenize path = Some toks"
  shows "\<exists>cache'. simdJsonExtract Refused path consumer cache s = Inr (False, s, cache')"
  using simdJsonExtract_compiled [OF ok toks, of Refused consumer s] by auto

lemma tokenize_field_a: "tokenize ''$.a'' = Some [''a'']"
  by (simp add: tokenize_def is_name_char_def not_closing_def)

lemma for_each_framed_eq:
  "(\<And>x u. x \<in> set xs \<Longrightarrow> framed x u = Some (body x u))
   \<Longrightarrow> for_each_framed framed xs s = Some (for_each body xs s)"
proof (induction xs arbitrary: s)
  case Nil
  then show ?case by simp
next
  case (Cons x xs)
  have head: "framed x s = Some (body x s)" by (rule Cons.prems) simp
  have tail: "for_each_framed framed xs u = Some (for_each body xs u)" for u
    by (rule Cons.IH) (simp add: Cons.prems)
  show ?case by (simp add: head tail split: outcome.splits)
qed



lemma getInstance_ok:
  assumes ok: "cache_ok cache" and call: "getInstance path cache = Inr (ref, cache')"
  shows "cache_ok cache'"
proof (cases "tokenize path")
  case None
  with ok call show ?thesis by (simp add: getInstance_invalid)
next
  case (Some toks)
  from getInstance_compiled [OF ok Some] call show ?thesis by auto
qed

lemma after_calls_ok: "cache_ok cache \<Longrightarrow> cache_ok (after_calls paths cache)"
proof (induction paths arbitrary: cache)
  case Nil
  then show ?case by simp
next
  case (Cons path paths)
  have "cache_ok (case getInstance path cache of Inl err \<Rightarrow> cache | Inr (ref, cache') \<Rightarrow> cache')"
    using Cons.prems by (auto split: sum.splits dest: getInstance_ok)
  then show ?case by (simp add: Cons.IH)
qed

lemma tokenize_a_star_x: "tokenize ''$.a[*].x'' = Some [''a'', ''*'', ''x'']"
  by (simp add: tokenize_def is_name_char_def not_closing_def)

section \<open>The cache under a sequence of calls\<close>

lemma cache_inv_empty: "cache_inv empty_cache"
  by (simp add: cache_inv_def empty_cache_def)

lemma map_of_filter_other:
  "p \<noteq> q \<Longrightarrow> map_of (filter (\<lambda>e. fst e \<noteq> q) es) p = map_of es p"
  by (induction es) auto

lemma getInstance_hit:
  "map_of (entries cache) path = Some ref \<Longrightarrow>
   getInstance path cache =
     Inr (ref, cache\<lparr>entries := (path, ref) # filter (\<lambda>e. fst e \<noteq> path) (entries cache)\<rparr>)"
  by (simp add: getInstance_def)

lemma getInstance_miss:
  "map_of (entries cache) path = None \<Longrightarrow> tokenize path = Some toks \<Longrightarrow>
   getInstance path cache =
     Inr ((allocated cache, \<lparr>path_tokens = toks\<rparr>),
          \<lparr>entries = (path, (allocated cache, \<lparr>path_tokens = toks\<rparr>)) #
             (if length (entries cache) < kMaxCacheSize then entries cache
              else butlast (entries cache)),
           allocated = allocated cache + 1\<rparr>)"
  by (simp add: getInstance_def new_SIMDJsonExtractor_def)

lemma getInstance_raise:
  "map_of (entries cache) path = None \<Longrightarrow> tokenize path = None \<Longrightarrow>
   getInstance path cache = Inl (VeloxUserError (''Invalid JSON path: '' @ path))"
  by (simp add: getInstance_def new_SIMDJsonExtractor_def)

lemma filter_key_shorter:
  "map_of es q = Some r \<Longrightarrow> length (filter (\<lambda>e. fst e \<noteq> q) es) < length es"
proof -
  assume "map_of es q = Some r"
  then have "(q, r) \<in> set es" by (rule map_of_SomeD)
  then show ?thesis by (intro length_filter_less [of "(q, r)"]) simp_all
qed

lemma getInstance_inv:
  assumes inv: "cache_inv cache" and call: "getInstance path cache = Inr (ref, cache')"
  shows "cache_inv cache'"
proof (cases "map_of (entries cache) path")
  case (Some hit)
  from call have cache': "cache' = cache\<lparr>entries := (path, hit) # filter (\<lambda>e. fst e \<noteq> path) (entries cache)\<rparr>"
    by (auto simp: getInstance_hit [OF Some])
  from inv have "distinct (map fst (filter (\<lambda>e. fst e \<noteq> path) (entries cache)))"
    by (simp add: cache_inv_def distinct_map_filter)
  moreover have "path \<notin> fst ` set (filter (\<lambda>e. fst e \<noteq> path) (entries cache))" by auto
  moreover from filter_key_shorter [OF Some] inv
  have "Suc (length (filter (\<lambda>e. fst e \<noteq> path) (entries cache))) \<le> kMaxCacheSize"
    by (simp add: cache_inv_def)
  ultimately show ?thesis by (simp add: cache' cache_inv_def)
next
  case None
  then have fresh: "path \<notin> fst ` set (entries cache)" by (simp add: map_of_eq_None_iff)
  show ?thesis
  proof (cases "tokenize path")
    case no: None
    with None call show ?thesis by (simp add: getInstance_raise)
  next
    case (Some toks)
    let ?kept = "if length (entries cache) < kMaxCacheSize then entries cache
                 else butlast (entries cache)"
    from call have cache': "entries cache' = (path, ref) # ?kept"
      by (auto simp: getInstance_miss [OF None Some])
    from inv have "distinct (map fst ?kept)"
      by (simp add: cache_inv_def map_butlast distinct_butlast)
    moreover from fresh have "path \<notin> fst ` set ?kept"
      by (auto dest: in_set_butlastD)
    moreover from inv have "Suc (length ?kept) \<le> kMaxCacheSize"
      by (auto simp: cache_inv_def kMaxCacheSize_def)
    ultimately show ?thesis by (simp add: cache' cache_inv_def)
  qed
qed

lemma after_calls_inv: "cache_inv cache \<Longrightarrow> cache_inv (after_calls paths cache)"
proof (induction paths arbitrary: cache)
  case Nil
  then show ?case by simp
next
  case (Cons path paths)
  have "cache_inv (case getInstance path cache of Inl err \<Rightarrow> cache | Inr (ref, cache') \<Rightarrow> cache')"
    using Cons.prems by (auto split: sum.splits dest: getInstance_inv)
  then show ?case by (simp add: Cons.IH)
qed

lemma holds_ref_lookup:
  assumes "holds_ref path ref others cache"
  shows "map_of (entries cache) path = Some ref"
proof -
  from assms obtain newer older
    where es: "entries cache = newer @ (path, ref) # older"
      and d: "distinct (map fst (entries cache))"
    by (auto simp: holds_ref_def cache_inv_def)
  from d es have "path \<notin> fst ` set newer" by auto
  then have "map_of newer path = None" by (simp add: map_of_eq_None_iff)
  with es show ?thesis by (simp add: map_add_def)
qed

lemma holds_ref_first:
  assumes inv: "cache_inv cache" and call: "getInstance path cache = Inr (ref, cache')"
  shows "holds_ref path ref others cache'"
proof -
  have "\<exists>older. entries cache' = [] @ (path, ref) # older"
  proof (cases "map_of (entries cache) path")
    case (Some hit)
    with call show ?thesis by (auto simp: getInstance_hit [OF Some])
  next
    case None
    show ?thesis
    proof (cases "tokenize path")
      case no: None
      with None call show ?thesis by (simp add: getInstance_raise)
    next
      case (Some toks)
      with None call show ?thesis by (auto simp: getInstance_miss [OF None Some])
    qed
  qed
  then obtain older where "entries cache' = [] @ (path, ref) # older" ..
  moreover have "fst ` set ([] :: (string \<times> extractor_ref) list) \<subseteq> others" by simp
  ultimately show ?thesis
    unfolding holds_ref_def using getInstance_inv [OF inv call] by blast
qed

lemma holds_ref_again:
  assumes h: "holds_ref path ref others cache"
  shows "\<exists>cache'. getInstance path cache = Inr (ref, cache')
           \<and> allocated cache' = allocated cache \<and> holds_ref path ref others cache'"
proof -
  let ?cache' = "cache\<lparr>entries := (path, ref) # filter (\<lambda>e. fst e \<noteq> path) (entries cache)\<rparr>"
  from holds_ref_lookup [OF h] have call: "getInstance path cache = Inr (ref, ?cache')"
    by (rule getInstance_hit)
  from h have "cache_inv cache" by (simp add: holds_ref_def)
  then have "holds_ref path ref others ?cache'" using call by (rule holds_ref_first)
  with call show ?thesis by simp
qed

lemma holds_ref_other:
  assumes h: "holds_ref path ref others cache"
    and fin: "finite others" and few: "card others < kMaxCacheSize"
    and q: "q \<in> others" and other: "q \<noteq> path"
  shows "holds_ref path ref others
           (case getInstance q cache of Inl err \<Rightarrow> cache | Inr (x, cache') \<Rightarrow> cache')"
proof -
  from h obtain newer older
    where es: "entries cache = newer @ (path, ref) # older"
      and sub: "fst ` set newer \<subseteq> others"
      and inv: "cache_inv cache"
    by (auto simp: holds_ref_def)
  show ?thesis
  proof (cases "map_of (entries cache) q")
    case (Some hit)
    let ?cache' = "cache\<lparr>entries := (q, hit) # filter (\<lambda>e. fst e \<noteq> q) (entries cache)\<rparr>"
    have call: "getInstance q cache = Inr (hit, ?cache')" by (rule getInstance_hit [OF Some])
    have "entries ?cache' =
            ((q, hit) # filter (\<lambda>e. fst e \<noteq> q) newer) @ (path, ref) # filter (\<lambda>e. fst e \<noteq> q) older"
      using other by (simp add: es)
    moreover have "fst ` set ((q, hit) # filter (\<lambda>e. fst e \<noteq> q) newer) \<subseteq> others"
      using sub q by auto
    moreover have "cache_inv ?cache'" by (rule getInstance_inv [OF inv call])
    ultimately have "holds_ref path ref others ?cache'"
      unfolding holds_ref_def by blast
    with call show ?thesis by simp
  next
    case None
    then have fresh: "q \<notin> fst ` set (entries cache)" by (simp add: map_of_eq_None_iff)
    show ?thesis
    proof (cases "tokenize q")
      case no: None
      with None h show ?thesis by (simp add: getInstance_raise)
    next
      case (Some toks)
      let ?new = "(allocated cache, \<lparr>path_tokens = toks\<rparr>)"
      let ?kept = "if length (entries cache) < kMaxCacheSize then entries cache
                   else butlast (entries cache)"
      let ?cache' = "\<lparr>entries = (q, ?new) # ?kept, allocated = allocated cache + 1\<rparr>"
      have call: "getInstance q cache = Inr (?new, ?cache')"
        by (rule getInstance_miss [OF None Some])
      have kept: "\<exists>older'. ?kept = newer @ (path, ref) # older'"
      proof (cases "length (entries cache) < kMaxCacheSize")
        case True
        then show ?thesis by (simp add: es)
      next
        case False
        from inv es have "distinct (map fst newer)" by (simp add: cache_inv_def)
        then have "length newer = card (fst ` set newer)"
          by (metis distinct_card length_map set_map)
        also have "\<dots> \<le> card (others - {q})"
        proof (rule card_mono)
          show "finite (others - {q})" using fin by simp
          show "fst ` set newer \<subseteq> others - {q}" using sub fresh es by auto
        qed
        also have "\<dots> = card others - 1" using q fin by simp
        finally have "length newer < kMaxCacheSize - 1" using few q fin
          by (cases "card others") auto
        moreover from False have "kMaxCacheSize \<le> length newer + 1 + length older"
          by (simp add: es)
        ultimately have "older \<noteq> []" by auto
        then have "butlast (entries cache) = newer @ (path, ref) # butlast older"
          by (simp add: es butlast_append)
        with False show ?thesis by simp
      qed
      then obtain older' where "?kept = newer @ (path, ref) # older'" ..
      then have "entries ?cache' = ((q, ?new) # newer) @ (path, ref) # older'" by simp
      moreover have "fst ` set ((q, ?new) # newer) \<subseteq> others" using sub q by simp
      moreover have "cache_inv ?cache'" by (rule getInstance_inv [OF inv call])
      ultimately have "holds_ref path ref others ?cache'"
        unfolding holds_ref_def by blast
      with call show ?thesis by simp
    qed
  qed
qed

lemma holds_ref_after_calls:
  assumes fin: "finite others" and few: "card others < kMaxCacheSize"
  shows "holds_ref path ref others cache \<Longrightarrow> set between - {path} \<subseteq> others
         \<Longrightarrow> holds_ref path ref others (after_calls between cache)"
proof (induction between arbitrary: cache)
  case Nil
  then show ?case by simp
next
  case (Cons q between)
  let ?next = "case getInstance q cache of Inl err \<Rightarrow> cache | Inr (x, cache') \<Rightarrow> cache'"
  have "holds_ref path ref others ?next"
  proof (cases "q = path")
    case True
    with holds_ref_again [OF Cons.prems(1)] show ?thesis by auto
  next
    case False
    with Cons.prems(2) have "q \<in> others" by auto
    with Cons.prems(1) fin few show ?thesis using False by (rule holds_ref_other)
  qed
  moreover from Cons.prems(2) have "set between - {path} \<subseteq> others" by auto
  ultimately have "holds_ref path ref others (after_calls between ?next)" by (rule Cons.IH)
  then show ?case by simp
qed

section \<open>The entry point and the consumer\<close>




lemma extract_raising_exhausted:
  "length tokens \<le> tokenIndex \<Longrightarrow>
   extract_raising tokens consumer input tokenIndex s = consumer (Value input) s"
  by (subst extract_raising.simps) simp


lemma extract_raising_scalar:
  "tokenIndex < length tokens \<Longrightarrow> is_scalar input \<Longrightarrow>
   extract_raising tokens consumer input tokenIndex s = Returned s"
  by (subst extract_raising.simps) (cases input; simp add: is_scalar_def)








section \<open>The claims\<close>

text \<open>
  C1. At an array whose current token is the wildcard, with every element readable, the
  traversal visits the elements in array order: when the wildcard is the last token the
  consumer is called once per element, otherwise each element is traversed on its own
  from the next token index; the outcome of that loop is the outcome of the call, so no
  later token is processed at this level. Extracting \<open>$.a[*]\<close> from
  \<open>{"a":[1,2,3]}\<close> calls the consumer three times, with 1, 2 and 3 in this order,
  and returns \<^verbatim>\<open>true\<close>. An element whose branch ends silently does not stop its
  siblings: \<open>$.a[*].x\<close> on \<open>{"a":[{"x":1},{"y":2},{"x":3}]}\<close> calls the consumer
  with 1 and then with 3.
\<close>

theorem wildcard_fan_out:
  "(tokenIndex < length tokens \<and> tokens ! tokenIndex = ''*'' \<and> JError \<notin> set children \<longrightarrow>
      extractor_extract tokens consumer (JArray children) tokenIndex s =
        (if tokenIndex = length tokens - 1
         then Returned (fold (\<lambda>child. consumer (Value child)) children s)
         else for_each (\<lambda>child. extractor_extract tokens consumer child (tokenIndex + 1))
                children s))
   \<and> tokenize ''$.a[*]'' = Some [''a'', ''*'']
   \<and> (cache_ok cache \<longrightarrow>
        (\<exists>cache'.
           simdJsonExtract (Iterated (JObject [(''a'', JArray [JNumber 1, JNumber 2, JNumber 3])]))
             ''$.a[*]'' consumer cache s =
           Inr (True,
                consumer (Value (JNumber 3))
                  (consumer (Value (JNumber 2)) (consumer (Value (JNumber 1)) s)),
                cache')))
   \<and> (cache_ok cache \<longrightarrow>
        (\<exists>cache'.
           simdJsonExtract
             (Iterated (JObject [(''a'', JArray [JObject [(''x'', JNumber 1)],
                                                JObject [(''y'', JNumber 2)],
                                                JObject [(''x'', JNumber 3)]])]))
             ''$.a[*].x'' consumer cache s =
           Inr (True, consumer (Value (JNumber 3)) (consumer (Value (JNumber 1)) s),
                cache')))"
proof (intro conjI impI)
  assume a: "tokenIndex < length tokens \<and> tokens ! tokenIndex = ''*'' \<and> JError \<notin> set children"
  show "extractor_extract tokens consumer (JArray children) tokenIndex s =
        (if tokenIndex = length tokens - 1
         then Returned (fold (\<lambda>child. consumer (Value child)) children s)
         else for_each (\<lambda>child. extractor_extract tokens consumer child (tokenIndex + 1))
                children s)"
  proof (cases "tokenIndex = length tokens - 1")
    case True
    with a have "Suc tokenIndex = length tokens" by auto
    with a True show ?thesis
      by (simp add: extract_wildcard_last for_each_consume)
  next
    case False
    with a have "Suc tokenIndex < length tokens" by auto
    with a False show ?thesis
      by (simp add: extract_wildcard_inner for_each_no_error)
  qed
next
  show "tokenize ''$.a[*]'' = Some [''a'', ''*'']" by (rule tokenize_a_star)
next
  assume ok: "cache_ok cache"
  have "extractor_extract [''a'', ''*''] consumer
          (JObject [(''a'', JArray [JNumber 1, JNumber 2, JNumber 3])]) 0 s =
        Returned (consumer (Value (JNumber 3))
                  (consumer (Value (JNumber 2)) (consumer (Value (JNumber 1)) s)))"
    by (simp add: extract_object extract_wildcard_last)
  with simdJsonExtract_compiled [OF ok tokenize_a_star,
      of "Iterated (JObject [(''a'', JArray [JNumber 1, JNumber 2, JNumber 3])])" consumer s]
  show "\<exists>cache'.
           simdJsonExtract (Iterated (JObject [(''a'', JArray [JNumber 1, JNumber 2, JNumber 3])]))
             ''$.a[*]'' consumer cache s =
           Inr (True,
                consumer (Value (JNumber 3))
                  (consumer (Value (JNumber 2)) (consumer (Value (JNumber 1)) s)),
                cache')"
    by auto
next
  assume ok: "cache_ok cache"
  let ?doc = "JObject [(''a'', JArray [JObject [(''x'', JNumber 1)],
                                       JObject [(''y'', JNumber 2)],
                                       JObject [(''x'', JNumber 3)]])]"
  have "extractor_extract [''a'', ''*'', ''x''] consumer ?doc 0 s =
        Returned (consumer (Value (JNumber 3)) (consumer (Value (JNumber 1)) s))"
    by (simp add: extract_object extract_wildcard_inner extract_exhausted)
  with simdJsonExtract_compiled [OF ok tokenize_a_star_x, of "Iterated ?doc" consumer s]
  show "\<exists>cache'.
           simdJsonExtract (Iterated ?doc) ''$.a[*].x'' consumer cache s =
           Inr (True, consumer (Value (JNumber 3)) (consumer (Value (JNumber 1)) s),
                cache')"
    by auto
qed

theorem wildcard_fan_out_witness:
  "0 < length [''*''] \<and> [''*''] ! 0 = ''*'' \<and> JError \<notin> set [JNumber 1, JNumber 2, JNumber 3]
   \<and> extractor_extract [''*''] record_call (JArray [JNumber 1, JNumber 2, JNumber 3]) 0 [] =
       Returned [Value (JNumber 1), Value (JNumber 2), Value (JNumber 3)]
   \<and> cache_ok empty_cache
   \<and> (\<exists>cache'.
         simdJsonExtract (Iterated (JObject [(''a'', JArray [JNumber 1, JNumber 2, JNumber 3])]))
           ''$.a[*]'' record_call empty_cache [] =
         Inr (True, [Value (JNumber 1), Value (JNumber 2), Value (JNumber 3)], cache'))
   \<and> (\<exists>cache'.
         simdJsonExtract
           (Iterated (JObject [(''a'', JArray [JObject [(''x'', JNumber 1)],
                                              JObject [(''y'', JNumber 2)],
                                              JObject [(''x'', JNumber 3)]])]))
           ''$.a[*].x'' record_call empty_cache [] =
         Inr (True, [Value (JNumber 1), Value (JNumber 3)], cache'))"
  using wildcard_fan_out [of 0 "[''*'']" "[JNumber 1, JNumber 2, JNumber 3]" record_call "[]"
      empty_cache]
  by (simp add: cache_ok_empty record_call_def)




text \<open>
  C3. The trivial path \<open>$\<close> has no token, and for every document the parser yields
  (valid or not) extraction on it calls the consumer exactly once, with the whole document
  as it is, and returns \<^verbatim>\<open>true\<close>.
\<close>

theorem root_path_whole_document:
  "tokenize ''$'' = Some [] \<and>
   (cache_ok cache \<longrightarrow>
     (\<exists>cache'. simdJsonExtract (Iterated doc) ''$'' consumer cache s =
        Inr (True, consumer (Document doc) s, cache')))"
proof -
  have t: "tokenize ''$'' = Some []" by (simp add: tokenize_def)
  have "\<exists>cache'. simdJsonExtract (Iterated doc) ''$'' consumer cache s =
        Inr (True, consumer (Document doc) s, cache')" if "cache_ok cache"
    using simdJsonExtract_compiled [OF that t, of "Iterated doc" consumer s] by auto
  with t show ?thesis by blast
qed

theorem root_path_whole_document_witness:
  "cache_ok empty_cache \<and> valid (JString ''x'') \<and>
   (\<exists>cache'. simdJsonExtract (Iterated (JString ''x'')) ''$'' record_call empty_cache [] =
      Inr (True, [Document (JString ''x'')], cache'))"
  using root_path_whole_document [of empty_cache "JString ''x''" record_call "[]"]
  by (simp add: cache_ok_empty record_call_def)

text \<open>
  C4. At an object that has no member named by the current token the branch ends
  silently: the consumer is not called and nothing is raised. A valid document whose root
  is an object or an array gives \<^verbatim>\<open>true\<close> whatever the path matches, and
  \<open>$.missing\<close> on an object without that member gives \<^verbatim>\<open>true\<close> with no call of
  the consumer.
\<close>

theorem absent_key_stops_silently:
  "(tokenIndex < length tokens \<and> map_of members (tokens ! tokenIndex) = None \<longrightarrow>
      extractor_extract tokens consumer (JObject members) tokenIndex s = Returned s)
   \<and> (cache_ok cache \<and> tokenize path = Some toks \<and> valid doc \<and> \<not> is_scalar doc \<longrightarrow>
        (\<exists>s' cache'.
           simdJsonExtract (Iterated doc) path consumer cache s = Inr (True, s', cache')))
   \<and> tokenize ''$.missing'' = Some [''missing'']
   \<and> (cache_ok cache \<and> map_of members ''missing'' = None \<longrightarrow>
        (\<exists>cache'.
           simdJsonExtract (Iterated (JObject members)) ''$.missing'' consumer cache s =
           Inr (True, s, cache')))"
proof (intro conjI impI)
  assume "tokenIndex < length tokens \<and> map_of members (tokens ! tokenIndex) = None"
  then show "extractor_extract tokens consumer (JObject members) tokenIndex s = Returned s"
    by (simp add: extract_object)
next
  assume "cache_ok cache \<and> tokenize path = Some toks \<and> valid doc \<and> \<not> is_scalar doc"
  then show "\<exists>s' cache'.
           simdJsonExtract (Iterated doc) path consumer cache s = Inr (True, s', cache')"
    by (blast intro: valid_document_succeeds)
next
  show "tokenize ''$.missing'' = Some [''missing'']" by (rule tokenize_missing)
next
  assume a: "cache_ok cache \<and> map_of members ''missing'' = None"
  then have ok: "cache_ok cache" ..
  from a have "extractor_extract [''missing''] consumer (JObject members) 0 s = Returned s"
    by (simp add: extract_object)
  with simdJsonExtract_compiled [OF ok tokenize_missing, of "Iterated (JObject members)" consumer s]
  show "\<exists>cache'.
           simdJsonExtract (Iterated (JObject members)) ''$.missing'' consumer cache s =
           Inr (True, s, cache')"
    by auto
qed

theorem absent_key_stops_silently_witness:
  "0 < length [''b'', ''c'']
   \<and> map_of [(''a'', JNumber 1)] ([''b'', ''c''] ! 0) = None
   \<and> extractor_extract [''b'', ''c''] record_call (JObject [(''a'', JNumber 1)]) 0 [] = Returned []
   \<and> cache_ok empty_cache \<and> tokenize ''$.a'' = Some [''a'']
   \<and> valid (JObject [(''a'', JNumber 1)]) \<and> \<not> is_scalar (JObject [(''a'', JNumber 1)])
   \<and> (\<exists>s' cache'. simdJsonExtract (Iterated (JObject [(''a'', JNumber 1)])) ''$.a''
                      record_call empty_cache [] = Inr (True, s', cache'))
   \<and> map_of [(''a'', JNumber 1)] ''missing'' = None
   \<and> (\<exists>cache'. simdJsonExtract (Iterated (JObject [(''a'', JNumber 1)])) ''$.missing''
                   record_call empty_cache [] = Inr (True, [], cache'))"
  using absent_key_stops_silently [of 0 "[''b'', ''c'']" "[(''a'', JNumber 1)]" record_call "[]"
      empty_cache "''$.a''" "[''a'']" "JObject [(''a'', JNumber 1)]"]
  by (simp add: cache_ok_empty tokenize_field_a is_scalar_def)

text \<open>
  C5, as stated, fails when the root of the document is a scalar: line 176 converts the
  document to a value, which raises on a scalar document (lines 171-173), and the
  \<^verbatim>\<open>catch\<close> of line 179 returns \<^verbatim>\<open>false\<close>.
\<close>

theorem scalar_root_counterexample:
  "valid (JNumber 1) \<and> is_scalar (JNumber 1) \<and> tokenize ''$.a'' = Some [''a'']
   \<and> simdJsonExtract (Iterated (JNumber 1)) ''$.a'' record_call empty_cache [] =
       Inr (False, [],
            \<lparr>entries = [(''$.a'', 0, \<lparr>path_tokens = [''a'']\<rparr>)], allocated = 1\<rparr>)"
  by (simp add: tokenize_field_a is_scalar_def simdJsonExtract_def getInstance_def
      empty_cache_def new_SIMDJsonExtractor_def isRootOnlyPath_def kMaxCacheSize_def)

text \<open>
  C5, amended. A scalar reached by the traversal while tokens remain ends its branch
  silently, with no call of the consumer, and a valid document whose root is an object or
  an array gives \<^verbatim>\<open>true\<close>. When the root itself is a scalar and the path is not
  \<open>$\<close>, the call gives \<^verbatim>\<open>false\<close> and the consumer is not called.
\<close>

theorem scalar_stops_silently:
  "(tokenIndex < length tokens \<and> is_scalar input \<longrightarrow>
      extractor_extract tokens consumer input tokenIndex s = Returned s)
   \<and> (cache_ok cache \<and> tokenize path = Some toks \<and> valid doc \<and> \<not> is_scalar doc \<longrightarrow>
        (\<exists>s' cache'.
           simdJsonExtract (Iterated doc) path consumer cache s = Inr (True, s', cache')))
   \<and> (cache_ok cache \<and> tokenize path = Some toks \<and> toks \<noteq> [] \<and> is_scalar doc \<longrightarrow>
        (\<exists>cache'.
           simdJsonExtract (Iterated doc) path consumer cache s = Inr (False, s, cache')))"
proof (intro conjI impI)
  assume "tokenIndex < length tokens \<and> is_scalar input"
  then show "extractor_extract tokens consumer input tokenIndex s = Returned s"
    by (simp add: extract_scalar)
next
  assume "cache_ok cache \<and> tokenize path = Some toks \<and> valid doc \<and> \<not> is_scalar doc"
  then show "\<exists>s' cache'.
           simdJsonExtract (Iterated doc) path consumer cache s = Inr (True, s', cache')"
    by (blast intro: valid_document_succeeds)
next
  assume "cache_ok cache \<and> tokenize path = Some toks \<and> toks \<noteq> [] \<and> is_scalar doc"
  then show "\<exists>cache'.
           simdJsonExtract (Iterated doc) path consumer cache s = Inr (False, s, cache')"
    by (blast intro: scalar_document_fails)
qed

theorem scalar_stops_silently_witness:
  "0 < length [''a''] \<and> is_scalar (JNumber 7)
   \<and> extractor_extract [''a''] record_call (JNumber 7) 0 [] = Returned []
   \<and> cache_ok empty_cache \<and> tokenize ''$.a.b'' = Some [''a'', ''b''] 
   \<and> valid (JObject [(''a'', JNumber 7)]) \<and> \<not> is_scalar (JObject [(''a'', JNumber 7)])
   \<and> (\<exists>s' cache'. simdJsonExtract (Iterated (JObject [(''a'', JNumber 7)])) ''$.a.b''
                      record_call empty_cache [] = Inr (True, s', cache'))
   \<and> [''a'', ''b''] \<noteq> []
   \<and> (\<exists>cache'. simdJsonExtract (Iterated (JNumber 7)) ''$.a.b''
                      record_call empty_cache [] = Inr (False, [], cache'))"
proof -
  have t: "tokenize ''$.a.b'' = Some [''a'', ''b'']"
    by (simp add: tokenize_def is_name_char_def not_closing_def)
  show ?thesis
    using scalar_stops_silently [of 0 "[''a'']" "JNumber 7" record_call "[]"
      empty_cache "''$.a.b''" "[''a'', ''b'']" "JObject [(''a'', JNumber 7)]"]
      scalar_stops_silently [of 0 "[''a'']" "JNumber 7" record_call "[]"
      empty_cache "''$.a.b''" "[''a'', ''b'']" "JNumber 7"]
    by (simp add: cache_ok_empty t is_scalar_def)
qed

text \<open>
  C6, as stated, fails for input whose error the parser reports only when the traversal
  gets there: for an array whose first element is readable and whose second position is
  erroneous, \<open>$[*]\<close> calls the consumer on the first element (line 112) before
  \<^verbatim>\<open>child.value()\<close> raises on the second, and the call returns \<^verbatim>\<open>false\<close> with one
  consumer call made.
\<close>

theorem late_error_counterexample:
  "\<not> valid (JArray [JNumber 1, JError]) \<and> tokenize ''$[*]'' = Some [''*'']
   \<and> simdJsonExtract (Iterated (JArray [JNumber 1, JError])) ''$[*]'' record_call empty_cache [] =
       Inr (False, [Value (JNumber 1)],
            \<lparr>entries = [(''$[*]'', 0, \<lparr>path_tokens = [''*'']\<rparr>)], allocated = 1\<rparr>)"
  by (simp add: tokenize_star simdJsonExtract_def getInstance_def
      empty_cache_def new_SIMDJsonExtractor_def isRootOnlyPath_def kMaxCacheSize_def
      extract_wildcard_last record_call_def)

text \<open>
  C6, amended. For input that the parser refuses and every path that compiles, the call
  returns \<^verbatim>\<open>false\<close> and the consumer is not called. When the error is raised during
  the traversal, the call returns \<^verbatim>\<open>false\<close> as well, and the consumer calls made
  before the error stand.
\<close>

theorem malformed_input_fails:
  "(cache_ok cache \<and> tokenize path = Some toks \<longrightarrow>
      (\<exists>cache'. simdJsonExtract Refused path consumer cache s = Inr (False, s, cache')))
   \<and> (cache_ok cache \<and> tokenize path = Some toks \<and> toks \<noteq> [] \<and> get_value doc = Some root
        \<and> extractor_extract toks consumer root 0 s = Raised s' \<longrightarrow>
      (\<exists>cache'. simdJsonExtract (Iterated doc) path consumer cache s = Inr (False, s', cache')))"
proof (intro conjI impI)
  assume "cache_ok cache \<and> tokenize path = Some toks"
  then show "\<exists>cache'. simdJsonExtract Refused path consumer cache s = Inr (False, s, cache')"
    by (blast intro: refused_document_fails)
next
  assume a: "cache_ok cache \<and> tokenize path = Some toks \<and> toks \<noteq> [] \<and> get_value doc = Some root
        \<and> extractor_extract toks consumer root 0 s = Raised s'"
  then have ok: "cache_ok cache" and toks: "tokenize path = Some toks" by simp_all
  from a simdJsonExtract_compiled [OF ok toks, of "Iterated doc" consumer s]
  show "\<exists>cache'. simdJsonExtract (Iterated doc) path consumer cache s = Inr (False, s', cache')"
    by auto
qed

theorem malformed_input_fails_witness:
  "cache_ok empty_cache \<and> tokenize ''$[*]'' = Some [''*'']
   \<and> (\<exists>cache'. simdJsonExtract Refused ''$[*]'' record_call empty_cache [] =
         Inr (False, [], cache'))
   \<and> [''*''] \<noteq> []
   \<and> get_value (JArray [JNumber 1, JError]) = Some (JArray [JNumber 1, JError])
   \<and> extractor_extract [''*''] record_call (JArray [JNumber 1, JError]) 0 [] =
       Raised [Value (JNumber 1)]
   \<and> (\<exists>cache'. simdJsonExtract (Iterated (JArray [JNumber 1, JError])) ''$[*]'' record_call
         empty_cache [] = Inr (False, [Value (JNumber 1)], cache'))"
  using malformed_input_fails [of empty_cache "''$[*]''" "[''*'']" record_call "[]"
      "JArray [JNumber 1, JError]" "JArray [JNumber 1, JError]" "[Value (JNumber 1)]"]
  by (simp add: cache_ok_empty tokenize_star extract_wildcard_last record_call_def)

text \<open>
  C7. For every path the tokenizer rejects, the constructor raises
  \<^verbatim>\<open>VeloxUserError\<close> with the path in its message, and \<^verbatim>\<open>simdJsonExtract\<close> lets the
  error through to its caller instead of returning a boolean, whatever the document.
  \<open>$[\<close> and \<open>$.\<close> are such paths.
\<close>

theorem malformed_path_raises:
  "(tokenize path = None \<longrightarrow>
      new_SIMDJsonExtractor path = Inl (VeloxUserError (''Invalid JSON path: '' @ path)))
   \<and> (cache_ok cache \<and> tokenize path = None \<longrightarrow>
        simdJsonExtract json path consumer cache s =
          Inl (VeloxUserError (''Invalid JSON path: '' @ path)))
   \<and> tokenize ''$['' = None \<and> tokenize ''$.'' = None"
proof (intro conjI impI)
  assume "tokenize path = None"
  then show "new_SIMDJsonExtractor path = Inl (VeloxUserError (''Invalid JSON path: '' @ path))"
    by (simp add: new_SIMDJsonExtractor_def)
next
  assume "cache_ok cache \<and> tokenize path = None"
  then have "getInstance path cache = Inl (VeloxUserError (''Invalid JSON path: '' @ path))"
    by (simp add: getInstance_invalid)
  then show "simdJsonExtract json path consumer cache s =
          Inl (VeloxUserError (''Invalid JSON path: '' @ path))"
    by (simp add: simdJsonExtract_def)
next
  show "tokenize ''$['' = None" by (rule tokenize_bad1)
next
  show "tokenize ''$.'' = None" by (rule tokenize_bad2)
qed

theorem malformed_path_raises_witness:
  "tokenize ''$['' = None
   \<and> new_SIMDJsonExtractor ''$['' = Inl (VeloxUserError ''Invalid JSON path: $['')
   \<and> cache_ok empty_cache
   \<and> simdJsonExtract (Iterated (JArray [JNumber 1])) ''$['' record_call empty_cache [] =
       Inl (VeloxUserError ''Invalid JSON path: $['')"
  using malformed_path_raises [of "''$[''" empty_cache "Iterated (JArray [JNumber 1])"
      record_call "[]"]
  by (simp add: cache_ok_empty)

text \<open>
  C8, as stated, fails once the entry has been evicted between the two calls: after
  \<open>$\<close> and thirty-two other paths the cache has dropped \<open>$\<close>, its least recently
  used entry, and the next call with \<open>$\<close> constructs a new extractor, at address 33
  instead of 0.
\<close>

theorem eviction_counterexample:
  "map_sum id fst (getInstance ''$'' empty_cache) = Inr (0, \<lparr>path_tokens = []\<rparr>)
   \<and> length thirty_two_paths = 32 \<and> distinct thirty_two_paths
   \<and> map_sum id fst (getInstance ''$'' (after_calls (''$'' # thirty_two_paths) empty_cache)) =
       Inr (33, \<lparr>path_tokens = []\<rparr>)"
  by code_simp

text \<open>
  C8, amended. After any sequence of calls the cache lists at most
  \<^verbatim>\<open>kMaxCacheSize\<close> (32) paths, each once. A call with a path that compiles and a
  later call with the same path return the same reference, and the later call constructs
  nothing, provided that fewer than 32 distinct other paths are asked for between the two.
\<close>

theorem cache_bounded_and_shared:
  "kMaxCacheSize = 32
   \<and> length (entries (after_calls history empty_cache)) \<le> kMaxCacheSize
   \<and> distinct (map fst (entries (after_calls history empty_cache)))
   \<and> (getInstance path (after_calls history empty_cache) = Inr (ref, cache1)
        \<and> card (set between - {path}) < kMaxCacheSize \<longrightarrow>
        (\<exists>cache2. getInstance path (after_calls between cache1) = Inr (ref, cache2)
           \<and> allocated cache2 = allocated (after_calls between cache1)))"
proof -
  have inv: "cache_inv (after_calls history empty_cache)"
    by (rule after_calls_inv [OF cache_inv_empty])
  have "\<exists>cache2. getInstance path (after_calls between cache1) = Inr (ref, cache2)
           \<and> allocated cache2 = allocated (after_calls between cache1)"
    if call: "getInstance path (after_calls history empty_cache) = Inr (ref, cache1)"
      and few: "card (set between - {path}) < kMaxCacheSize"
  proof -
    let ?others = "set between - {path}"
    from inv call have "holds_ref path ref ?others cache1" by (rule holds_ref_first)
    with few have "holds_ref path ref ?others (after_calls between cache1)"
      by (intro holds_ref_after_calls) simp_all
    from holds_ref_again [OF this] show ?thesis by blast
  qed
  with inv show ?thesis by (auto simp: cache_inv_def kMaxCacheSize_def)
qed

theorem cache_bounded_and_shared_witness:
  "length (entries (after_calls [''$.a'', ''$['', ''$.b''] empty_cache)) \<le> 32
   \<and> getInstance ''$.b'' (after_calls [''$.a''] empty_cache) =
       Inr ((1, \<lparr>path_tokens = [''b'']\<rparr>),
            \<lparr>entries = [(''$.b'', 1, \<lparr>path_tokens = [''b'']\<rparr>),
                        (''$.a'', 0, \<lparr>path_tokens = [''a'']\<rparr>)],
             allocated = 2\<rparr>)
   \<and> card (set [''$.a'', ''$.c''] - {''$.b''}) < kMaxCacheSize
   \<and> (\<exists>cache2.
         getInstance ''$.b''
           (after_calls [''$.a'', ''$.c'']
              \<lparr>entries = [(''$.b'', 1, \<lparr>path_tokens = [''b'']\<rparr>),
                          (''$.a'', 0, \<lparr>path_tokens = [''a'']\<rparr>)],
               allocated = 2\<rparr>) =
         Inr ((1, \<lparr>path_tokens = [''b'']\<rparr>), cache2))"
proof -
  have call: "getInstance ''$.b'' (after_calls [''$.a''] empty_cache) =
       Inr ((1, \<lparr>path_tokens = [''b'']\<rparr>),
            \<lparr>entries = [(''$.b'', 1, \<lparr>path_tokens = [''b'']\<rparr>),
                        (''$.a'', 0, \<lparr>path_tokens = [''a'']\<rparr>)],
             allocated = 2\<rparr>)"
    by code_simp
  have few: "card (set [''$.a'', ''$.c''] - {''$.b''}) < kMaxCacheSize"
    by (simp add: kMaxCacheSize_def card_insert_if)
  from cache_bounded_and_shared [of "[''$.a'', ''$['', ''$.b'']"]
  have "length (entries (after_calls [''$.a'', ''$['', ''$.b''] empty_cache)) \<le> 32"
    by simp
  moreover
  from cache_bounded_and_shared [of "[''$.a'']" "''$.b''" _ _ "[''$.a'', ''$.c'']"] call few
  have "\<exists>cache2.
         getInstance ''$.b''
           (after_calls [''$.a'', ''$.c'']
              \<lparr>entries = [(''$.b'', 1, \<lparr>path_tokens = [''b'']\<rparr>),
                          (''$.a'', 0, \<lparr>path_tokens = [''a'']\<rparr>)],
               allocated = 2\<rparr>) =
         Inr ((1, \<lparr>path_tokens = [''b'']\<rparr>), cache2)"
    by blast
  ultimately show ?thesis using call few by simp
qed

text \<open>
  C9. At an object the current token is looked up as a member name whatever its shape:
  nothing distinguishes a subscript from a field. So \<open>$[0]\<close> on an object selects the
  member named \<open>0\<close>, and \<open>$[*]\<close> the member named \<open>*\<close>.
\<close>

theorem token_text_is_object_key:
  "(tokenIndex < length tokens \<longrightarrow>
      extractor_extract tokens consumer (JObject members) tokenIndex s =
        (case map_of members (tokens ! tokenIndex) of
           None \<Rightarrow> Returned s
         | Some child \<Rightarrow> extractor_extract tokens consumer child (tokenIndex + 1) s))
   \<and> tokenize ''$[0]'' = Some [''0''] \<and> tokenize ''$[*]'' = Some [''*'']
   \<and> (cache_ok cache \<longrightarrow>
        (\<exists>cache'. simdJsonExtract (Iterated (JObject [(''0'', v)])) ''$[0]'' consumer cache s =
           Inr (True, consumer (Value v) s, cache')))
   \<and> (cache_ok cache \<longrightarrow>
        (\<exists>cache'. simdJsonExtract (Iterated (JObject [(''*'', v)])) ''$[*]'' consumer cache s =
           Inr (True, consumer (Value v) s, cache')))"
proof (intro conjI impI)
  assume "tokenIndex < length tokens"
  then show "extractor_extract tokens consumer (JObject members) tokenIndex s =
        (case map_of members (tokens ! tokenIndex) of
           None \<Rightarrow> Returned s
         | Some child \<Rightarrow> extractor_extract tokens consumer child (tokenIndex + 1) s)"
    by (rule extract_object)
next
  show "tokenize ''$[0]'' = Some [''0'']" by (rule tokenize_0)
next
  show "tokenize ''$[*]'' = Some [''*'']" by (rule tokenize_star)
next
  assume ok: "cache_ok cache"
  have "extractor_extract [''0''] consumer (JObject [(''0'', v)]) 0 s
          = Returned (consumer (Value v) s)"
    by (simp add: extract_object extract_exhausted)
  with simdJsonExtract_compiled [OF ok tokenize_0, of "Iterated (JObject [(''0'', v)])" consumer s]
  show "\<exists>cache'. simdJsonExtract (Iterated (JObject [(''0'', v)])) ''$[0]'' consumer cache s =
           Inr (True, consumer (Value v) s, cache')"
    by auto
next
  assume ok: "cache_ok cache"
  have "extractor_extract [''*''] consumer (JObject [(''*'', v)]) 0 s
          = Returned (consumer (Value v) s)"
    by (simp add: extract_object extract_exhausted)
  with simdJsonExtract_compiled [OF ok tokenize_star, of "Iterated (JObject [(''*'', v)])" consumer s]
  show "\<exists>cache'. simdJsonExtract (Iterated (JObject [(''*'', v)])) ''$[*]'' consumer cache s =
           Inr (True, consumer (Value v) s, cache')"
    by auto
qed

theorem token_text_is_object_key_witness:
  "0 < length [''0'']
   \<and> extractor_extract [''0''] record_call (JObject [(''0'', JNumber 7)]) 0 [] =
       Returned [Value (JNumber 7)]
   \<and> cache_ok empty_cache
   \<and> (\<exists>cache'. simdJsonExtract (Iterated (JObject [(''0'', JNumber 7)])) ''$[0]'' record_call
         empty_cache [] = Inr (True, [Value (JNumber 7)], cache'))
   \<and> (\<exists>cache'. simdJsonExtract (Iterated (JObject [(''*'', JNumber 7)])) ''$[*]'' record_call
         empty_cache [] = Inr (True, [Value (JNumber 7)], cache'))"
  using token_text_is_object_key [of 0 "[''0'']" record_call "[(''0'', JNumber 7)]" "[]"
      empty_cache "JNumber 7"]
  by (simp add: cache_ok_empty extract_exhausted record_call_def)

text \<open>
  C10. \<open>extractor_extract\<close> is a total function: its termination proof is the measure
  \<open>length tokens - tokenIndex\<close>, which every iteration of the loop over the tokens and
  every recursive call decreases, and the loop over an array runs over a list. The depth
  of the recursion is bounded by the number of tokens: with as many frames as tokens remain
  (and at least one) the call completes, with the outcome of \<open>extractor_extract\<close>.
\<close>

theorem extract_within_token_count:
  "0 < frames \<Longrightarrow> length tokens - tokenIndex \<le> frames \<Longrightarrow>
   extract_framed frames tokens consumer input tokenIndex s =
     Some (extractor_extract tokens consumer input tokenIndex s)"
proof (induction "length tokens - tokenIndex" arbitrary: frames tokenIndex input s)
  case 0
  then show ?case
    by (subst extract_framed.simps, subst extractor_extract.simps) simp
next
  case (Suc n)
  then have less: "tokenIndex < length tokens" and pos: "frames \<noteq> 0" by auto
  have n: "n = length tokens - (tokenIndex + 1)" using Suc.hyps(2) by simp
  have step: "extract_framed frames tokens consumer result (tokenIndex + 1) s =
                Some (extractor_extract tokens consumer result (tokenIndex + 1) s)" for result
    by (rule Suc.hyps(1) [OF n]) (use Suc.prems in auto)
  have loop: "for_each_framed
                (\<lambda>child s'.
                   if child = JError then Some (Raised s')
                   else if tokenIndex = length tokens - 1
                   then Some (Returned (consumer (Value child) s'))
                   else extract_framed (frames - 1) tokens consumer child (tokenIndex + 1) s')
                children s =
              Some (for_each
                (\<lambda>child s'.
                   if child = JError then Raised s'
                   else if tokenIndex = length tokens - 1
                   then Returned (consumer (Value child) s')
                   else extractor_extract tokens consumer child (tokenIndex + 1) s')
                children s)" for children
  proof (rule for_each_framed_eq)
    fix x u
    show "(if x = JError then Some (Raised u)
           else if tokenIndex = length tokens - 1
           then Some (Returned (consumer (Value x) u))
           else extract_framed (frames - 1) tokens consumer x (tokenIndex + 1) u) =
          Some (if x = JError then Raised u
           else if tokenIndex = length tokens - 1
           then Returned (consumer (Value x) u)
           else extractor_extract tokens consumer x (tokenIndex + 1) u)"
    proof (cases "tokenIndex = length tokens - 1")
      case True
      then show ?thesis by simp
    next
      case False
      with less Suc.prems have "0 < frames - 1"
        and "length tokens - (tokenIndex + 1) \<le> frames - 1" by auto
      then have "extract_framed (frames - 1) tokens consumer x (tokenIndex + 1) u =
                   Some (extractor_extract tokens consumer x (tokenIndex + 1) u)"
        by (rule Suc.hyps(1) [OF n])
      with False show ?thesis by simp
    qed
  qed
  show ?case
    apply (subst extract_framed.simps)
    apply (subst extractor_extract.simps)
    apply (simp only: pos less if_True if_False Let_def step loop)
    apply (simp split: option.splits)
    done
qed

theorem extract_within_token_count_witness:
  "(0::nat) < 2 \<and> length [''*'', ''*''] - 0 \<le> 2
   \<and> extract_framed 2 [''*'', ''*''] record_call
         (JArray [JArray [JNumber 1, JNumber 2], JArray [JNumber 3]]) 0 [] =
       Some (Returned [Value (JNumber 1), Value (JNumber 2), Value (JNumber 3)])"
  using extract_within_token_count [of 2 "[''*'', ''*'']" 0 record_call
      "JArray [JArray [JNumber 1, JNumber 2], JArray [JNumber 3]]" "[]"]
  by (simp add: extract_wildcard_inner extract_wildcard_last record_call_def)

lemma extract_framed_too_few:
  "extract_framed 1 [''*'', ''*''] consumer (JArray [JArray [JNumber 1]]) 0 s = None"
  by (simp add: extract_framed.simps)

end
